theory Spec2Isabelle
  imports Main
begin

section \<open>Data model of \<^verbatim>\<open>snowball_plot.py\<close>\<close>

text \<open>
  A participant is a user name, the content of a cell of the columns \<^verbatim>\<open>Attacker\<close> and
  \<^verbatim>\<open>Victim\<close> after \<^verbatim>\<open>normalize_user\<close>. Missing cells (NaN) are not modelled: every
  cell holds a string. A team is one of the two strings \<^verbatim>\<open>"Reindeer"\<close> and
  \<^verbatim>\<open>"Penguin"\<close>, the only values \<^verbatim>\<open>main\<close> and \<^verbatim>\<open>infer_teams\<close> ever store.
\<close>

type_synonym user = string

datatype team = Reindeer | Penguin

text \<open>One row of the data frame \<^verbatim>\<open>df\<close>; the frame is the list of its rows, in order.\<close>

record row =
  Attacker :: user
  Victim :: user
  Time :: int

text \<open>
  The dictionary \<^verbatim>\<open>current_teams\<close> is only ever looked up and stored into, so it is a
  map. An entry of \<^verbatim>\<open>evidence\<close> is the dictionary \<^verbatim>\<open>{"Reindeer": r, "Penguin": p}\<close>,
  written as the pair \<open>(r, p)\<close> of Python integers. The dictionary \<^verbatim>\<open>evidence\<close> is
  iterated by \<^verbatim>\<open>evidence.items()\<close>, so it is an association list that keeps the
  insertion order of its keys.
\<close>

type_synonym teams = "user \<rightharpoonup> team"

type_synonym counts = "int \<times> int"

type_synonym evidence = "(user \<times> counts) list"

section \<open>The evidence sweep (lines 41 to 59)\<close>

text \<open>\<^verbatim>\<open>target = "Penguin" if att_team == "Reindeer" else "Reindeer"\<close>\<close>

definition opposite :: "team \<Rightarrow> team" where
  "opposite t = (if t = Reindeer then Penguin else Reindeer)"

text \<open>\<^verbatim>\<open>counts[target] += 1\<close>\<close>

fun bump :: "team \<Rightarrow> counts \<Rightarrow> counts" where
  "bump Reindeer (r, p) = (r + 1, p)"
| "bump Penguin (r, p) = (r, p + 1)"

text \<open>
  \<^verbatim>\<open>evidence.setdefault(u, {"Reindeer": 0, "Penguin": 0}); evidence[u][target] += 1\<close>:
  an existing key keeps its place, a new key goes to the end.
\<close>

fun add_vote :: "user \<Rightarrow> team \<Rightarrow> evidence \<Rightarrow> evidence" where
  "add_vote u target [] = [(u, bump target (0, 0))]"
| "add_vote u target ((k, c) # ev) =
     (if k = u then (k, bump target c) # ev else (k, c) # add_vote u target ev)"

text \<open>The body of the loop over the rows: the two \<^verbatim>\<open>if\<close> statements, one after the other.\<close>

definition step_row :: "teams \<Rightarrow> row \<Rightarrow> evidence \<Rightarrow> evidence" where
  "step_row current_teams rw ev =
     (let att = Attacker rw;
          vic = Victim rw;
          ev1 = (case current_teams att of
                   Some att_team \<Rightarrow>
                     if current_teams vic = None
                     then add_vote vic (opposite att_team) ev else ev
                 | None \<Rightarrow> ev)
      in (case current_teams vic of
            Some vic_team \<Rightarrow>
              if current_teams att = None
              then add_vote att (opposite vic_team) ev1 else ev1
          | None \<Rightarrow> ev1))"

fun collect_evidence :: "teams \<Rightarrow> row list \<Rightarrow> evidence \<Rightarrow> evidence" where
  "collect_evidence current_teams [] ev = ev"
| "collect_evidence current_teams (rw # rows) ev =
     collect_evidence current_teams rows (step_row current_teams rw ev)"

section \<open>The commit loop (lines 61 to 82)\<close>

text \<open>
  The body of the loop over \<^verbatim>\<open>evidence.items()\<close>, on the state made of
  \<^verbatim>\<open>current_teams\<close> and the flag \<^verbatim>\<open>changed\<close>; the branches are in the order of the
  source.
\<close>

fun commit_user :: "user \<Rightarrow> counts \<Rightarrow> teams \<times> bool \<Rightarrow> teams \<times> bool" where
  "commit_user u (r, p) (current_teams, changed) =
     (if current_teams u \<noteq> None then (current_teams, changed)
      else if r > p * 2 \<and> r > 0 then (current_teams(u \<mapsto> Reindeer), True)
      else if p > r * 2 \<and> p > 0 then (current_teams(u \<mapsto> Penguin), True)
      else if r > 0 \<and> p = 0 then (current_teams(u \<mapsto> Reindeer), True)
      else if p > 0 \<and> r = 0 then (current_teams(u \<mapsto> Penguin), True)
      else (current_teams, changed))"

fun apply_evidence :: "evidence \<Rightarrow> teams \<times> bool \<Rightarrow> teams \<times> bool" where
  "apply_evidence [] s = s"
| "apply_evidence ((u, c) # ev) s = apply_evidence ev (commit_user u c s)"

text \<open>One run of the body of \<^verbatim>\<open>while changed\<close>: the new teams and the flag.\<close>

definition infer_pass :: "row list \<Rightarrow> teams \<Rightarrow> teams \<times> bool" where
  "infer_pass df current_teams =
     apply_evidence (collect_evidence current_teams df []) (current_teams, False)"

section \<open>Participants and the shape of the evidence\<close>

text \<open>The participants of a frame: every user that is the attacker or the victim of a row.\<close>

definition participants :: "row list \<Rightarrow> user set" where
  "participants df = Attacker ` set df \<union> Victim ` set df"

definition participant_count :: "row list \<Rightarrow> nat" where
  "participant_count df = card (participants df)"

text \<open>\<^verbatim>\<open>evidence.get(u)\<close>, with the tally \<open>(0, 0)\<close> for a user that has no entry.\<close>

definition tally :: "evidence \<Rightarrow> user \<Rightarrow> counts" where
  "tally ev u = (case map_of ev u of None \<Rightarrow> (0, 0) | Some c \<Rightarrow> c)"

lemma finite_participants: "finite (participants df)"
  by (simp add: participants_def)

lemma add_vote_keys: "fst ` set (add_vote u t ev) = insert u (fst ` set ev)"
  by (induction u t ev rule: add_vote.induct) (simp_all add: insert_commute)

lemma add_vote_distinct:
  "distinct (map fst ev) \<Longrightarrow> distinct (map fst (add_vote u t ev))"
proof (induction ev)
  case Nil
  show ?case by simp
next
  case (Cons e ev)
  obtain k c where e: "e = (k, c)" by (cases e)
  from Cons.prems e have k: "k \<notin> fst ` set ev" and d: "distinct (map fst ev)"
    by auto
  show ?case
  proof (cases "k = u")
    case True
    with e k d show ?thesis by simp
  next
    case False
    with e k Cons.IH [OF d] show ?thesis by (simp add: add_vote_keys)
  qed
qed

lemma map_of_add_vote:
  "map_of (add_vote u t ev) = (map_of ev)(u \<mapsto> bump t (tally ev u))"
  by (induction ev) (auto simp: tally_def fun_eq_iff)

lemma step_row_keys:
  "k \<in> fst ` set (step_row ct rw ev) \<Longrightarrow>
   k \<in> fst ` set ev \<or> ((k = Attacker rw \<or> k = Victim rw) \<and> ct k = None)"
  by (auto simp: step_row_def Let_def add_vote_keys split: option.splits if_splits)

lemma step_row_distinct:
  "distinct (map fst ev) \<Longrightarrow> distinct (map fst (step_row ct rw ev))"
  by (simp add: step_row_def Let_def add_vote_distinct split: option.splits)

lemma participants_Nil: "participants [] = {}"
  by (simp add: participants_def)

lemma participants_Cons:
  "participants (rw # df) = insert (Attacker rw) (insert (Victim rw) (participants df))"
  unfolding participants_def by (simp add: insert_commute Un_commute)

lemma collect_evidence_keys:
  "k \<in> fst ` set (collect_evidence ct df ev) \<Longrightarrow>
   k \<in> fst ` set ev \<or> (k \<in> participants df \<and> ct k = None)"
proof (induction df arbitrary: ev)
  case Nil
  then show ?case by simp
next
  case (Cons rw df)
  from Cons.prems have "k \<in> fst ` set (collect_evidence ct df (step_row ct rw ev))"
    by simp
  then have "k \<in> fst ` set (step_row ct rw ev) \<or> (k \<in> participants df \<and> ct k = None)"
    by (rule Cons.IH)
  then show ?case
    using step_row_keys [of k ct rw ev] by (auto simp: participants_Cons)
qed

lemma collect_evidence_distinct:
  "distinct (map fst ev) \<Longrightarrow> distinct (map fst (collect_evidence ct df ev))"
  by (induction df arbitrary: ev) (simp_all add: step_row_distinct)

section \<open>The commit rule and the commit loop\<close>

text \<open>
  The commit rule in the words of the specification, for a tally \<open>(countA, countB)\<close> with
  \<open>Reindeer\<close> as faction A: dominance only.
\<close>

definition commit_rule :: "int \<Rightarrow> int \<Rightarrow> team option" where
  "commit_rule countA countB =
     (if countA > 2 * countB \<and> countA > 0 then Some Reindeer
      else if countB > 2 * countA \<and> countB > 0 then Some Penguin
      else None)"

lemma commit_user_rule:
  "commit_user u (r, p) (ct, ch) =
     (if ct u \<noteq> None then (ct, ch)
      else case commit_rule r p of None \<Rightarrow> (ct, ch) | Some t \<Rightarrow> (ct(u \<mapsto> t), True))"
  by (auto simp: commit_rule_def)

declare commit_user.simps [simp del]

lemma map_le_Some: "m \<subseteq>\<^sub>m m' \<Longrightarrow> m u = Some t \<Longrightarrow> m' u = Some t"
  by (metis domI map_le_def)

lemma commit_user_other: "k \<noteq> u \<Longrightarrow> fst (commit_user k c s) u = fst s u"
  by (cases c; cases s) (simp add: commit_user_rule split: option.splits)

lemma commit_user_le: "fst s \<subseteq>\<^sub>m fst (commit_user k c s)"
  by (cases c; cases s) (auto simp: commit_user_rule map_le_def split: option.splits)

lemma apply_evidence_le: "fst s \<subseteq>\<^sub>m fst (apply_evidence ev s)"
proof (induction ev arbitrary: s)
  case Nil
  show ?case by simp
next
  case (Cons e ev)
  obtain k c where e: "e = (k, c)" by (cases e)
  have "fst s \<subseteq>\<^sub>m fst (commit_user k c s)" by (rule commit_user_le)
  also have "\<dots> \<subseteq>\<^sub>m fst (apply_evidence ev (commit_user k c s))" by (rule Cons.IH)
  finally show ?case by (simp add: e)
qed

lemma apply_evidence_fst:
  "distinct (map fst ev) \<Longrightarrow>
   fst (apply_evidence ev (ct, ch)) u =
     (case ct u of
        Some t \<Rightarrow> Some t
      | None \<Rightarrow> (case map_of ev u of None \<Rightarrow> None | Some (r, p) \<Rightarrow> commit_rule r p))"
proof (induction ev arbitrary: ct ch)
  case Nil
  show ?case by (simp split: option.splits)
next
  case (Cons e ev)
  obtain k r p where e: "e = (k, (r, p))" by (cases e) auto
  from Cons.prems e have k: "k \<notin> fst ` set ev" and d: "distinct (map fst ev)"
    by auto
  obtain ct' ch' where s': "commit_user k (r, p) (ct, ch) = (ct', ch')"
    by (cases "commit_user k (r, p) (ct, ch)")
  have step: "fst (apply_evidence (e # ev) (ct, ch)) u =
      (case ct' u of
         Some t \<Rightarrow> Some t
       | None \<Rightarrow> (case map_of ev u of None \<Rightarrow> None | Some (r, p) \<Rightarrow> commit_rule r p))"
    using Cons.IH [OF d, of ct' ch'] by (simp add: e s')
  show ?case
  proof (cases "u = k")
    case True
    from k have "map_of ev k = None" by (simp add: map_of_eq_None_iff)
    moreover from s' have "ct' k = (if ct k \<noteq> None then ct k else commit_rule r p)"
      by (auto simp: commit_user_rule split: option.splits if_splits)
    ultimately show ?thesis
      using step True by (simp add: e split: option.splits)
  next
    case False
    then have "ct' u = ct u"
      using commit_user_other [of k u "(r, p)" "(ct, ch)"] by (simp add: s')
    with step False show ?thesis by (cases "ct u") (simp_all add: e)
  qed
qed

lemma apply_evidence_snd:
  "snd (apply_evidence ev (ct, ch)) =
     (ch \<or> fst (apply_evidence ev (ct, ch)) \<noteq> ct)"
proof (induction ev arbitrary: ct ch)
  case Nil
  show ?case by simp
next
  case (Cons e ev)
  obtain k r p where e: "e = (k, (r, p))" by (cases e) auto
  obtain ct' ch' where s': "commit_user k (r, p) (ct, ch) = (ct', ch')"
    by (cases "commit_user k (r, p) (ct, ch)")
  have ih: "snd (apply_evidence ev (ct', ch')) =
      (ch' \<or> fst (apply_evidence ev (ct', ch')) \<noteq> ct')"
    by (rule Cons.IH)
  have le: "ct' \<subseteq>\<^sub>m fst (apply_evidence ev (ct', ch'))"
    using apply_evidence_le [of "(ct', ch')" ev] by simp
  have unfold: "apply_evidence (e # ev) (ct, ch) = apply_evidence ev (ct', ch')"
    by (simp add: e s')
  consider (same) "ct' = ct" "ch' = ch" | (new) t where "ct k = None" "ct' k = Some t" "ch'"
    using s' by (auto simp: commit_user_rule split: option.splits if_splits)
  then show ?case
  proof cases
    case same
    with ih unfold show ?thesis by simp
  next
    case new
    from le new(2) have "fst (apply_evidence ev (ct', ch')) k = Some t"
      by (metis domI map_le_def)
    with new have "fst (apply_evidence ev (ct', ch')) k \<noteq> ct k" by simp
    then have "fst (apply_evidence ev (ct', ch')) \<noteq> ct" by blast
    moreover from ih new have "snd (apply_evidence ev (ct', ch'))" by simp
    ultimately show ?thesis unfolding unfold by simp
  qed
qed

section \<open>The loop \<^verbatim>\<open>while changed\<close> (lines 37 to 84)\<close>

text \<open>The participants of the frame that have no team yet.\<close>

definition unlabeled :: "row list \<Rightarrow> teams \<Rightarrow> user set" where
  "unlabeled df ct = {u \<in> participants df. ct u = None}"

lemma finite_unlabeled: "finite (unlabeled df ct)"
  by (simp add: unlabeled_def finite_participants)

lemma infer_pass_le: "ct \<subseteq>\<^sub>m fst (infer_pass df ct)"
  using apply_evidence_le [of "(ct, False)"] by (simp add: infer_pass_def)

lemma infer_pass_fst:
  "fst (infer_pass df ct) u =
     (case ct u of
        Some t \<Rightarrow> Some t
      | None \<Rightarrow> (case map_of (collect_evidence ct df []) u of
                   None \<Rightarrow> None
                 | Some (r, p) \<Rightarrow> commit_rule r p))"
  unfolding infer_pass_def
  by (rule apply_evidence_fst) (simp add: collect_evidence_distinct)

lemma infer_pass_snd: "snd (infer_pass df ct) = (fst (infer_pass df ct) \<noteq> ct)"
  unfolding infer_pass_def by (simp add: apply_evidence_snd [of _ ct False])

lemma infer_pass_new:
  assumes "fst (infer_pass df ct) u \<noteq> ct u"
  shows "u \<in> participants df \<and> ct u = None \<and> fst (infer_pass df ct) u \<noteq> None"
proof -
  from assms have none: "ct u = None"
    by (cases "ct u") (simp_all add: infer_pass_fst)
  with assms have some: "fst (infer_pass df ct) u \<noteq> None" by simp
  with none have "map_of (collect_evidence ct df []) u \<noteq> None"
    by (auto simp: infer_pass_fst split: option.splits)
  then have "u \<in> fst ` set (collect_evidence ct df [])"
    by (simp add: map_of_eq_None_iff)
  then have "u \<in> participants df"
    using collect_evidence_keys [of u ct df "[]"] by simp
  with none some show ?thesis by simp
qed

lemma infer_pass_decreases:
  assumes "snd (infer_pass df ct)"
  shows "card (unlabeled df (fst (infer_pass df ct))) < card (unlabeled df ct)"
proof -
  let ?ct' = "fst (infer_pass df ct)"
  from assms have "?ct' \<noteq> ct" by (simp add: infer_pass_snd)
  then obtain u where "?ct' u \<noteq> ct u" by (auto simp: fun_eq_iff)
  then have u: "u \<in> participants df" "ct u = None" "?ct' u \<noteq> None"
    using infer_pass_new [of df ct u] by simp_all
  have sub: "unlabeled df ?ct' \<subseteq> unlabeled df ct"
  proof
    fix v
    assume v: "v \<in> unlabeled df ?ct'"
    have "ct v = None"
    proof (cases "ct v")
      case None
      then show ?thesis .
    next
      case (Some t)
      then have "?ct' v = Some t" by (simp add: infer_pass_fst)
      with v show ?thesis by (simp add: unlabeled_def)
    qed
    with v show "v \<in> unlabeled df ct" by (simp add: unlabeled_def)
  qed
  from u have "u \<in> unlabeled df ct" "u \<notin> unlabeled df ?ct'"
    by (simp_all add: unlabeled_def)
  with sub have "unlabeled df ?ct' \<subset> unlabeled df ct" by auto
  then show ?thesis by (rule psubset_card_mono [OF finite_unlabeled])
qed

text \<open>
  \<^verbatim>\<open>infer_teams\<close>: the body runs at least once, as \<^verbatim>\<open>changed\<close> starts as true; it runs
  again as long as the pass before set the flag.
\<close>

function infer_teams :: "row list \<Rightarrow> teams \<Rightarrow> teams" where
  "infer_teams df current_teams =
     (let s = infer_pass df current_teams
      in if snd s then infer_teams df (fst s) else fst s)"
  by pat_completeness auto
termination
  by (relation "measure (\<lambda>(df, ct). card (unlabeled df ct))")
     (simp_all add: infer_pass_decreases)

declare infer_teams.simps [simp del]

text \<open>
  The same loop with a bound on the number of passes: \<open>None\<close> when the bound is
  reached before a pass leaves the flag unset.
\<close>

fun infer_teams_fuel :: "nat \<Rightarrow> row list \<Rightarrow> teams \<Rightarrow> teams option" where
  "infer_teams_fuel 0 df current_teams = None"
| "infer_teams_fuel (Suc n) df current_teams =
     (let s = infer_pass df current_teams
      in if snd s then infer_teams_fuel n df (fst s) else Some (fst s))"

text \<open>
  The teams after \<open>n\<close> passes, whether or not the loop runs that far: once a pass
  commits nothing, every later pass commits nothing either.
\<close>

fun teams_after :: "nat \<Rightarrow> row list \<Rightarrow> teams \<Rightarrow> teams" where
  "teams_after 0 df current_teams = current_teams"
| "teams_after (Suc n) df current_teams = fst (infer_pass df (teams_after n df current_teams))"

lemma teams_after_shift:
  "teams_after n df (fst (infer_pass df ct)) = teams_after (Suc n) df ct"
  by (induction n) simp_all

lemma infer_teams_le: "ct \<subseteq>\<^sub>m infer_teams df ct"
proof (induction df ct rule: infer_teams.induct)
  case (1 df ct)
  show ?case
  proof (cases "snd (infer_pass df ct)")
    case True
    have "ct \<subseteq>\<^sub>m fst (infer_pass df ct)" by (rule infer_pass_le)
    also have "\<dots> \<subseteq>\<^sub>m infer_teams df (fst (infer_pass df ct))"
      using True by (rule "1.IH" [OF refl])
    also have "\<dots> = infer_teams df ct"
      using True by (simp add: infer_teams.simps [of df ct])
    finally show ?thesis .
  next
    case False
    then have "infer_teams df ct = fst (infer_pass df ct)"
      by (simp add: infer_teams.simps [of df ct])
    then show ?thesis by (simp add: infer_pass_le)
  qed
qed

lemma infer_teams_is_teams_after: "\<exists>n. infer_teams df ct = teams_after n df ct"
proof (induction df ct rule: infer_teams.induct)
  case (1 df ct)
  show ?case
  proof (cases "snd (infer_pass df ct)")
    case True
    then obtain n where "infer_teams df (fst (infer_pass df ct)) = teams_after n df (fst (infer_pass df ct))"
      using "1.IH" [OF refl] by blast
    with True have "infer_teams df ct = teams_after (Suc n) df ct"
      by (simp add: infer_teams.simps [of df ct] teams_after_shift del: teams_after.simps)
    then show ?thesis ..
  next
    case False
    then have "infer_teams df ct = teams_after (Suc 0) df ct"
      by (simp add: infer_teams.simps [of df ct])
    then show ?thesis ..
  qed
qed

section \<open>Evidence in the words of the specification\<close>

text \<open>
  A row contributes a vote for the participant \<open>u\<close> toward the team \<open>t\<close> when \<open>u\<close> has
  no team, is one endpoint of the row, and the other endpoint has the team opposite to
  \<open>t\<close>. The votes of \<open>u\<close> toward \<open>t\<close> are the contributing rows of the frame, each
  counted as often as it occurs.
\<close>

definition contributes :: "teams \<Rightarrow> user \<Rightarrow> team \<Rightarrow> row \<Rightarrow> bool" where
  "contributes ct u t rw =
     (ct u = None \<and>
      ((Victim rw = u \<and> (case ct (Attacker rw) of Some l \<Rightarrow> t = opposite l | None \<Rightarrow> False)) \<or>
       (Attacker rw = u \<and> (case ct (Victim rw) of Some l \<Rightarrow> t = opposite l | None \<Rightarrow> False))))"

definition votes :: "teams \<Rightarrow> row list \<Rightarrow> user \<Rightarrow> team \<Rightarrow> int" where
  "votes ct df u t = int (length (filter (contributes ct u t) df))"

lemma votes_Nil: "votes ct [] u t = 0"
  by (simp add: votes_def)

lemma votes_Cons:
  "votes ct (rw # df) u t = (if contributes ct u t rw then 1 else 0) + votes ct df u t"
  by (simp add: votes_def)

lemma bump_parts:
  "bump t c = (fst c + (if t = Reindeer then 1 else 0), snd c + (if t = Penguin then 1 else 0))"
  by (cases t; cases c) simp_all

lemma tally_add_vote:
  "tally (add_vote k t ev) u = (if u = k then bump t (tally ev u) else tally ev u)"
  by (simp add: tally_def map_of_add_vote)

lemma step_row_one_attacker:
  "ct (Attacker rw) = Some l \<Longrightarrow> ct (Victim rw) = None \<Longrightarrow>
   step_row ct rw ev = add_vote (Victim rw) (opposite l) ev"
  by (simp add: step_row_def)

lemma step_row_one_victim:
  "ct (Victim rw) = Some l \<Longrightarrow> ct (Attacker rw) = None \<Longrightarrow>
   step_row ct rw ev = add_vote (Attacker rw) (opposite l) ev"
  by (simp add: step_row_def)

lemma step_row_none:
  "(ct (Attacker rw) = None) = (ct (Victim rw) = None) \<Longrightarrow> step_row ct rw ev = ev"
  by (cases "ct (Attacker rw)"; cases "ct (Victim rw)") (simp_all add: step_row_def)

lemma opposite_cases: "(Reindeer = opposite l) = (l = Penguin)" "(Penguin = opposite l) = (l = Reindeer)"
  by (cases l; simp add: opposite_def)+

lemma tally_step_row:
  "tally (step_row ct rw ev) u =
     (fst (tally ev u) + (if contributes ct u Reindeer rw then 1 else 0),
      snd (tally ev u) + (if contributes ct u Penguin rw then 1 else 0))"
proof (cases "ct (Attacker rw)")
  case None
  note a = None
  show ?thesis
  proof (cases "ct (Victim rw)")
    case None
    with a have "step_row ct rw ev = ev" by (simp add: step_row_none)
    moreover from a None have "\<not> contributes ct u t rw" for t
      by (simp add: contributes_def)
    ultimately show ?thesis by simp
  next
    case (Some l)
    with a have s: "step_row ct rw ev = add_vote (Attacker rw) (opposite l) ev"
      by (simp add: step_row_one_victim)
    from a Some have c: "contributes ct u t rw = (u = Attacker rw \<and> t = opposite l)" for t
      by (auto simp: contributes_def)
    show ?thesis
      unfolding s tally_add_vote c by (cases l) (simp_all add: bump_parts opposite_def)
  qed
next
  case (Some l)
  note a = Some
  show ?thesis
  proof (cases "ct (Victim rw)")
    case None
    with a have s: "step_row ct rw ev = add_vote (Victim rw) (opposite l) ev"
      by (simp add: step_row_one_attacker)
    from a None have c: "contributes ct u t rw = (u = Victim rw \<and> t = opposite l)" for t
      by (auto simp: contributes_def)
    show ?thesis
      unfolding s tally_add_vote c by (cases l) (simp_all add: bump_parts opposite_def)
  next
    case (Some l')
    with a have "step_row ct rw ev = ev" by (simp add: step_row_none)
    moreover from a Some have "\<not> contributes ct u t rw" for t
      by (auto simp: contributes_def)
    ultimately show ?thesis by simp
  qed
qed

lemma tally_collect_evidence:
  "tally (collect_evidence ct df ev) u =
     (fst (tally ev u) + votes ct df u Reindeer, snd (tally ev u) + votes ct df u Penguin)"
proof (induction df arbitrary: ev)
  case Nil
  show ?case by (simp add: votes_Nil)
next
  case (Cons rw df)
  show ?case
    unfolding collect_evidence.simps Cons.IH tally_step_row votes_Cons by simp
qed

lemma step_row_has_key:
  "u \<in> fst ` set (step_row ct rw ev) \<longleftrightarrow>
     u \<in> fst ` set ev \<or> contributes ct u Reindeer rw \<or> contributes ct u Penguin rw"
proof (cases "ct (Attacker rw)")
  case None
  note a = None
  show ?thesis
  proof (cases "ct (Victim rw)")
    case None
    with a have "step_row ct rw ev = ev" by (simp add: step_row_none)
    moreover from a None have "\<not> contributes ct u t rw" for t
      by (simp add: contributes_def)
    ultimately show ?thesis by simp
  next
    case (Some l)
    with a have s: "step_row ct rw ev = add_vote (Attacker rw) (opposite l) ev"
      by (simp add: step_row_one_victim)
    from a Some have c: "contributes ct u t rw = (u = Attacker rw \<and> t = opposite l)" for t
      by (auto simp: contributes_def)
    show ?thesis
      unfolding s add_vote_keys c by (cases l) (auto simp: opposite_def)
  qed
next
  case (Some l)
  note a = Some
  show ?thesis
  proof (cases "ct (Victim rw)")
    case None
    with a have s: "step_row ct rw ev = add_vote (Victim rw) (opposite l) ev"
      by (simp add: step_row_one_attacker)
    from a None have c: "contributes ct u t rw = (u = Victim rw \<and> t = opposite l)" for t
      by (auto simp: contributes_def)
    show ?thesis
      unfolding s add_vote_keys c by (cases l) (auto simp: opposite_def)
  next
    case (Some l')
    with a have "step_row ct rw ev = ev" by (simp add: step_row_none)
    moreover from a Some have "\<not> contributes ct u t rw" for t
      by (auto simp: contributes_def)
    ultimately show ?thesis by simp
  qed
qed

lemma votes_pos: "0 < votes ct df u t \<longleftrightarrow> list_ex (contributes ct u t) df"
  by (induction df) (simp_all add: votes_def)

lemma collect_evidence_has_key:
  "u \<in> fst ` set (collect_evidence ct df ev) \<longleftrightarrow>
     u \<in> fst ` set ev \<or> 0 < votes ct df u Reindeer \<or> 0 < votes ct df u Penguin"
proof (induction df arbitrary: ev)
  case Nil
  show ?case by (simp add: votes_Nil)
next
  case (Cons rw df)
  have nonneg: "0 \<le> votes ct df u t" for t by (simp add: votes_def)
  have "0 < votes ct (rw # df) u t \<longleftrightarrow> contributes ct u t rw \<or> 0 < votes ct df u t" for t
    using nonneg [of t] by (simp add: votes_Cons)
  then show ?case
    unfolding collect_evidence.simps Cons.IH step_row_has_key by blast
qed

section \<open>The commit step in the words of the specification\<close>

text \<open>
  Every participant that has no team and whose tally matches the commit rule gets its
  team at once, from the one evidence of the pass; the flag tells whether some entry
  of the evidence matched.
\<close>

definition commit_simultaneously :: "evidence \<Rightarrow> teams \<Rightarrow> teams \<times> bool" where
  "commit_simultaneously ev ct =
     (\<lambda>u. case ct u of
             Some t \<Rightarrow> Some t
           | None \<Rightarrow> (case map_of ev u of None \<Rightarrow> None | Some (a, b) \<Rightarrow> commit_rule a b),
      list_ex (\<lambda>(u, (a, b)). ct u = None \<and> commit_rule a b \<noteq> None) ev)"

lemma apply_evidence_simultaneous:
  assumes "distinct (map fst ev)"
  shows "apply_evidence ev (ct, False) = commit_simultaneously ev ct"
proof (rule prod_eqI)
  show "fst (apply_evidence ev (ct, False)) = fst (commit_simultaneously ev ct)"
    by (rule ext) (simp add: commit_simultaneously_def apply_evidence_fst [OF assms])
next
  let ?f = "fst (apply_evidence ev (ct, False))"
  have "?f \<noteq> ct \<longleftrightarrow> (\<exists>e \<in> set ev. case e of (u, (a, b)) \<Rightarrow> ct u = None \<and> commit_rule a b \<noteq> None)"
  proof
    assume "?f \<noteq> ct"
    then obtain u where u: "?f u \<noteq> ct u" by (auto simp: fun_eq_iff)
    then have none: "ct u = None"
      by (cases "ct u") (simp_all add: apply_evidence_fst [OF assms])
    with u obtain a b where ab: "map_of ev u = Some (a, b)" "commit_rule a b \<noteq> None"
      by (auto simp: apply_evidence_fst [OF assms] split: option.splits)
    from ab(1) have "(u, (a, b)) \<in> set ev" by (rule map_of_SomeD)
    with none ab(2) show "\<exists>e \<in> set ev. case e of (u, (a, b)) \<Rightarrow> ct u = None \<and> commit_rule a b \<noteq> None"
      by (intro bexI [of _ "(u, (a, b))"]) simp_all
  next
    assume "\<exists>e \<in> set ev. case e of (u, (a, b)) \<Rightarrow> ct u = None \<and> commit_rule a b \<noteq> None"
    then obtain u a b where e: "(u, (a, b)) \<in> set ev" "ct u = None" "commit_rule a b \<noteq> None"
      by auto
    from assms e(1) have "map_of ev u = Some (a, b)" by (rule map_of_is_SomeI)
    with e have "?f u \<noteq> ct u" by (simp add: apply_evidence_fst [OF assms])
    then show "?f \<noteq> ct" by auto
  qed
  then show "snd (apply_evidence ev (ct, False)) = snd (commit_simultaneously ev ct)"
    by (simp add: apply_evidence_snd [of ev ct False] commit_simultaneously_def list_ex_iff)
qed

lemma commit_simultaneously_cong:
  assumes "distinct (map fst ev)" and "distinct (map fst ev')" and "set ev' = set ev"
  shows "commit_simultaneously ev' ct = commit_simultaneously ev ct"
proof -
  from assms have m: "map_of ev' = map_of ev" by (simp add: map_of_inject_set)
  show ?thesis
    unfolding commit_simultaneously_def list_ex_iff m assms(3) by (rule refl)
qed

lemma collect_evidence_filter_self:
  "collect_evidence ct (filter (\<lambda>rw. Attacker rw \<noteq> Victim rw) df) ev = collect_evidence ct df ev"
  by (induction df arbitrary: ev) (simp_all add: step_row_none)

lemma infer_teams_unfold:
  "infer_teams df ct =
     (if snd (infer_pass df ct) then infer_teams df (fst (infer_pass df ct))
      else fst (infer_pass df ct))"
  by (simp add: infer_teams.simps [of df ct] Let_def)

lemma infer_teams_same_pass:
  "\<forall>ct. infer_pass df' ct = infer_pass df ct \<Longrightarrow> infer_teams df' ct = infer_teams df ct"
proof (induction df ct rule: infer_teams.induct)
  case (1 df ct)
  from "1.prems" have same: "infer_pass df' ct = infer_pass df ct" by simp
  show ?case
  proof (cases "snd (infer_pass df ct)")
    case True
    then have "infer_teams df' (fst (infer_pass df ct)) = infer_teams df (fst (infer_pass df ct))"
      using "1.prems" by (rule "1.IH" [OF refl])
    with True show ?thesis
      by (simp add: infer_teams_unfold [of df ct] infer_teams_unfold [of df' ct] same)
  next
    case False
    then show ?thesis
      by (simp add: infer_teams_unfold [of df ct] infer_teams_unfold [of df' ct] same)
  qed
qed

section \<open>The commit loop without the one-sided branches\<close>

text \<open>
  The branch of the chain of conditions of lines 70 to 82 that a tally takes: 1 and 2
  are the dominance branches, 3 and 4 the one-sided branches, 0 is no branch.
\<close>

definition commit_branch :: "int \<Rightarrow> int \<Rightarrow> nat" where
  "commit_branch r p =
     (if r > p * 2 \<and> r > 0 then 1
      else if p > r * 2 \<and> p > 0 then 2
      else if r > 0 \<and> p = 0 then 3
      else if p > 0 \<and> r = 0 then 4
      else 0)"

text \<open>The variant of \<^verbatim>\<open>infer_teams\<close> whose commit step has the two dominance branches only.\<close>

fun commit_user_dominance :: "user \<Rightarrow> counts \<Rightarrow> teams \<times> bool \<Rightarrow> teams \<times> bool" where
  "commit_user_dominance u (r, p) (current_teams, changed) =
     (if current_teams u \<noteq> None then (current_teams, changed)
      else if r > p * 2 \<and> r > 0 then (current_teams(u \<mapsto> Reindeer), True)
      else if p > r * 2 \<and> p > 0 then (current_teams(u \<mapsto> Penguin), True)
      else (current_teams, changed))"

fun apply_evidence_dominance :: "evidence \<Rightarrow> teams \<times> bool \<Rightarrow> teams \<times> bool" where
  "apply_evidence_dominance [] s = s"
| "apply_evidence_dominance ((u, c) # ev) s =
     apply_evidence_dominance ev (commit_user_dominance u c s)"

definition infer_pass_dominance :: "row list \<Rightarrow> teams \<Rightarrow> teams \<times> bool" where
  "infer_pass_dominance df current_teams =
     apply_evidence_dominance (collect_evidence current_teams df []) (current_teams, False)"

lemma commit_user_dominance_eq: "commit_user_dominance u c s = commit_user u c s"
  by (cases c; cases s) (auto simp: commit_user.simps)

lemma apply_evidence_dominance_eq: "apply_evidence_dominance ev s = apply_evidence ev s"
  by (induction ev s rule: apply_evidence_dominance.induct)
     (simp_all add: commit_user_dominance_eq del: commit_user_dominance.simps)

lemma infer_pass_dominance_eq: "infer_pass_dominance df ct = infer_pass df ct"
  by (simp add: infer_pass_dominance_def infer_pass_def apply_evidence_dominance_eq)

function infer_teams_dominance :: "row list \<Rightarrow> teams \<Rightarrow> teams" where
  "infer_teams_dominance df current_teams =
     (let s = infer_pass_dominance df current_teams
      in if snd s then infer_teams_dominance df (fst s) else fst s)"
  by pat_completeness auto
termination
  by (relation "measure (\<lambda>(df, ct). card (unlabeled df ct))")
     (simp_all add: infer_pass_dominance_eq infer_pass_decreases)

declare infer_teams_dominance.simps [simp del]

lemma infer_teams_dominance_eq: "infer_teams_dominance df ct = infer_teams df ct"
proof (induction df ct rule: infer_teams.induct)
  case (1 df ct)
  show ?case
  proof (cases "snd (infer_pass df ct)")
    case True
    then have "infer_teams_dominance df (fst (infer_pass df ct)) = infer_teams df (fst (infer_pass df ct))"
      by (rule "1.IH" [OF refl])
    with True show ?thesis
      by (simp add: infer_teams_unfold [of df ct] infer_teams_dominance.simps [of df ct]
          infer_pass_dominance_eq Let_def)
  next
    case False
    then show ?thesis
      by (simp add: infer_teams_unfold [of df ct] infer_teams_dominance.simps [of df ct]
          infer_pass_dominance_eq Let_def)
  qed
qed

section \<open>The non-dominant band\<close>

text \<open>
  A tally in the words of the specification: tied with both counts positive, or within
  the band of a factor two with both counts positive, on either side.
\<close>

definition non_dominant :: "int \<Rightarrow> int \<Rightarrow> bool" where
  "non_dominant countA countB =
     ((countA = countB \<and> countA > 0 \<and> countB > 0)
      \<or> (countB \<le> countA \<and> countA \<le> 2 * countB \<and> countA > 0 \<and> countB > 0)
      \<or> (countA \<le> countB \<and> countB \<le> 2 * countA \<and> countA > 0 \<and> countB > 0))"

text \<open>The participant has an entry in the evidence of the pass that starts from the
  given teams, and its tally is non-dominant.\<close>

definition tally_in_band :: "teams \<Rightarrow> row list \<Rightarrow> user \<Rightarrow> bool" where
  "tally_in_band ct df u =
     (case map_of (collect_evidence ct df []) u of
        None \<Rightarrow> False
      | Some (a, b) \<Rightarrow> non_dominant a b)"

lemma non_dominant_no_commit: "non_dominant a b \<Longrightarrow> commit_rule a b = None"
  by (auto simp: non_dominant_def commit_rule_def)

lemma in_band_stays_unlabeled:
  "ct u = None \<Longrightarrow> tally_in_band ct df u \<Longrightarrow> fst (infer_pass df ct) u = None"
  by (auto simp: tally_in_band_def infer_pass_fst non_dominant_no_commit split: option.splits)

section \<open>The number of passes\<close>

lemma infer_teams_fuel_enough:
  "card (unlabeled df ct) < n \<Longrightarrow> infer_teams_fuel n df ct = Some (infer_teams df ct)"
proof (induction n arbitrary: ct)
  case 0
  then show ?case by simp
next
  case (Suc n)
  show ?case
  proof (cases "snd (infer_pass df ct)")
    case True
    then have "card (unlabeled df (fst (infer_pass df ct))) < card (unlabeled df ct)"
      by (rule infer_pass_decreases)
    with Suc.prems have "card (unlabeled df (fst (infer_pass df ct))) < n" by simp
    then have "infer_teams_fuel n df (fst (infer_pass df ct))
        = Some (infer_teams df (fst (infer_pass df ct)))"
      by (rule Suc.IH)
    with True show ?thesis
      by (simp add: infer_teams_unfold [of df ct] Let_def)
  next
    case False
    then show ?thesis
      by (simp add: infer_teams_unfold [of df ct] Let_def)
  qed
qed

lemma collect_evidence_no_label:
  "\<forall>u \<in> participants df. ct u = None \<Longrightarrow> collect_evidence ct df ev = ev"
  by (induction df arbitrary: ev) (simp_all add: participants_Cons step_row_none)

lemma infer_pass_no_label:
  "\<forall>u \<in> participants df. ct u = None \<Longrightarrow> infer_pass df ct = (ct, False)"
  by (simp add: infer_pass_def collect_evidence_no_label)

lemma infer_teams_fuel_bound:
  "infer_teams_fuel (max 1 (participant_count df)) df ct = Some (infer_teams df ct)"
proof (cases "\<forall>u \<in> participants df. ct u = None")
  case True
  then have p: "infer_pass df ct = (ct, False)" by (rule infer_pass_no_label)
  obtain m where m: "max 1 (participant_count df) = Suc m"
    by (cases "max 1 (participant_count df)") simp_all
  from p show ?thesis
    unfolding m by (simp add: infer_teams_unfold [of df ct])
next
  case False
  then obtain u where "u \<in> participants df" "u \<notin> unlabeled df ct"
    by (auto simp: unlabeled_def)
  moreover have "unlabeled df ct \<subseteq> participants df" by (auto simp: unlabeled_def)
  ultimately have "unlabeled df ct \<subset> participants df" by auto
  then have "card (unlabeled df ct) < participant_count df"
    unfolding participant_count_def by (rule psubset_card_mono [OF finite_participants])
  then have "card (unlabeled df ct) < max 1 (participant_count df)" by simp
  then show ?thesis by (rule infer_teams_fuel_enough)
qed

section \<open>The statistics of \<^verbatim>\<open>main\<close> (lines 107 to 123)\<close>

text \<open>The seed: \<^verbatim>\<open>known_reindeer\<close>, then \<^verbatim>\<open>user_teams.update\<close> with \<^verbatim>\<open>known_penguin\<close>.\<close>

definition known_reindeer :: "user list" where
  "known_reindeer = [''bsims'', ''SammyxxFairy'']"

definition known_penguin :: "user list" where
  "known_penguin = [''VMKNeec'', ''Luckymaxer'', ''Winnie'', ''BuckyBarnes'']"

definition user_teams :: teams where
  "user_teams =
     map_of (map (\<lambda>u. (u, Reindeer)) known_reindeer) ++ map_of (map (\<lambda>u. (u, Penguin)) known_penguin)"

text \<open>
  \<^verbatim>\<open>Series.value_counts()\<close>: one entry for each value that occurs, with the number of
  its occurrences. Pandas orders the entries by falling count; the order of the rows of
  a frame is not modelled here, the entries stand in the order \<open>remdups\<close> gives.
\<close>

definition value_counts :: "user list \<Rightarrow> (user \<times> int) list" where
  "value_counts xs = map (\<lambda>u. (u, int (count_list xs u))) (remdups xs)"

text \<open>
  \<^verbatim>\<open>pd.concat([attacks_made, attacks_received], axis=1).fillna(0).reset_index()\<close>: one
  row for each user of either index, a count missing on one side filled with zero.
\<close>

definition concat_fillna :: "(user \<times> int) list \<Rightarrow> (user \<times> int) list \<Rightarrow> (user \<times> int \<times> int) list" where
  "concat_fillna made received =
     map (\<lambda>u. (u, (case map_of made u of None \<Rightarrow> 0 | Some n \<Rightarrow> n),
                  (case map_of received u of None \<Rightarrow> 0 | Some n \<Rightarrow> n)))
       (remdups (map fst made @ map fst received))"

text \<open>A row of \<^verbatim>\<open>stats_df\<close>; the team \<^verbatim>\<open>"Unknown"\<close> of the source is \<open>None\<close>.\<close>

record stat_row =
  User :: user
  Attacks_Made :: int
  Attacks_Received :: int
  Team :: "team option"

definition build_stats :: "row list \<Rightarrow> teams \<Rightarrow> stat_row list" where
  "build_stats df solid_teams =
     (let attacks_made = value_counts (map Attacker df);
          attacks_received = value_counts (map Victim df);
          stats_df = map (\<lambda>(u, m, r).
                        \<lparr>User = u, Attacks_Made = m, Attacks_Received = r, Team = solid_teams u\<rparr>)
                       (concat_fillna attacks_made attacks_received)
      in filter (\<lambda>s. Team s \<noteq> None) stats_df)"

definition main_stats :: "row list \<Rightarrow> stat_row list" where
  "main_stats df = build_stats df (infer_teams df user_teams)"

text \<open>The counts in the words of the specification.\<close>

definition outgoing_count :: "row list \<Rightarrow> user \<Rightarrow> int" where
  "outgoing_count df u = int (length (filter (\<lambda>rw. Attacker rw = u) df))"

definition incoming_count :: "row list \<Rightarrow> user \<Rightarrow> int" where
  "incoming_count df u = int (length (filter (\<lambda>rw. Victim rw = u) df))"

lemma count_list_map: "count_list (map f xs) y = length (filter (\<lambda>x. f x = y) xs)"
  by (induction xs) simp_all

lemma value_counts_keys: "map fst (value_counts xs) = remdups xs"
  by (simp add: value_counts_def comp_def)

lemma map_of_tabulate:
  "map_of (map (\<lambda>k. (k, f k)) ks) k = (if k \<in> set ks then Some (f k) else None)"
  by (induction ks) simp_all

lemma value_counts_lookup:
  "(case map_of (value_counts xs) u of None \<Rightarrow> 0 | Some n \<Rightarrow> n) = int (count_list xs u)"
  by (simp add: value_counts_def map_of_tabulate count_list_0_iff)

definition stat_of :: "row list \<Rightarrow> teams \<Rightarrow> user \<Rightarrow> stat_row" where
  "stat_of df solid u =
     \<lparr>User = u, Attacks_Made = outgoing_count df u, Attacks_Received = incoming_count df u,
      Team = solid u\<rparr>"

definition stat_users :: "row list \<Rightarrow> user list" where
  "stat_users df = remdups (remdups (map Attacker df) @ remdups (map Victim df))"

lemma stat_users_set: "set (stat_users df) = participants df"
  by (simp add: stat_users_def participants_def)

lemma stat_users_distinct: "distinct (stat_users df)"
  by (simp add: stat_users_def)

lemma build_stats_alt:
  "build_stats df solid = map (stat_of df solid) (filter (\<lambda>u. solid u \<noteq> None) (stat_users df))"
  by (simp add: build_stats_def concat_fillna_def value_counts_keys value_counts_lookup
      count_list_map stat_of_def stat_users_def outgoing_count_def incoming_count_def
      filter_map comp_def)

lemma distinct_count_one:
  "distinct us \<Longrightarrow>
   length (filter (\<lambda>x. x = u) (filter Q us)) = (if u \<in> set us \<and> Q u then 1 else 0)"
  by (induction us) auto

lemma participants_counts:
  "u \<in> participants df \<longleftrightarrow> 0 < outgoing_count df u \<or> 0 < incoming_count df u"
  by (auto simp: participants_def outgoing_count_def incoming_count_def filter_empty_conv)

section \<open>Example frames\<close>

definition mk_row :: "user \<Rightarrow> user \<Rightarrow> row" where
  "mk_row a v = \<lparr>Attacker = a, Victim = v, Time = 0\<rparr>"

text \<open>Seven hits on Z by the penguin X and three by the reindeer Y: the tally of Z is \<open>(7, 3)\<close>.\<close>

definition df_dominance :: "row list" where
  "df_dominance = replicate 7 (mk_row ''X'' ''Z'') @ replicate 3 (mk_row ''Y'' ''Z'')"

definition seed_dominance :: teams where
  "seed_dominance = [''X'' \<mapsto> Penguin, ''Y'' \<mapsto> Reindeer]"

text \<open>Two participants hit by the penguin X: the evidence has two entries.\<close>

definition df_two :: "row list" where
  "df_two = [mk_row ''X'' ''Z'', mk_row ''X'' ''W'']"

text \<open>
  The reindeer X hits Z and Z hits the penguin Y, twice each: the tally of Z is \<open>(2, 2)\<close>.
\<close>

definition df_tied :: "row list" where
  "df_tied = [mk_row ''X'' ''Z'', mk_row ''Z'' ''Y'', mk_row ''X'' ''Z'', mk_row ''Z'' ''Y'']"

definition seed_tied :: teams where
  "seed_tied = [''X'' \<mapsto> Reindeer, ''Y'' \<mapsto> Penguin]"

text \<open>
  A frame for the seed of \<^verbatim>\<open>main\<close>: the seeded reindeer \<^verbatim>\<open>bsims\<close> hits the seeded
  penguin \<^verbatim>\<open>Winnie\<close> and a stranger; two more users hit each other.
\<close>

definition df_report :: "row list" where
  "df_report = [mk_row ''bsims'' ''Winnie'', mk_row ''bsims'' ''Stranger'',
                mk_row ''Other'' ''Another'']"

section \<open>The commit rule of a pass\<close>

text \<open>
  C1. In a pass, a participant without a team whose tally is \<open>(countA, countB)\<close> gets the
  team Reindeer (faction A) exactly when \<open>countA > 2 * countB\<close> and \<open>countA > 0\<close>, gets
  the team Penguin (faction B) exactly when \<open>countB > 2 * countA\<close> and \<open>countB > 0\<close>, and
  stays without a team otherwise. The branches of \<open>commit_user\<close> are in the order of the
  source, dominance before one-sidedness; a tally with one count zero and the other
  positive commits the positive faction. On a participant without a team the loop body
  commits Reindeer at the tally \<open>(7, 3)\<close> and commits nothing at \<open>(5, 3)\<close> and \<open>(0, 0)\<close>.
\<close>

theorem commit_pass_rule:
  assumes "ct u = None"
    and "tally (collect_evidence ct df []) u = (countA, countB)"
  shows "(fst (infer_pass df ct) u = Some Reindeer \<longleftrightarrow> countA > 2 * countB \<and> countA > 0)
       \<and> (fst (infer_pass df ct) u = Some Penguin \<longleftrightarrow> countB > 2 * countA \<and> countB > 0)
       \<and> (fst (infer_pass df ct) u = None \<longleftrightarrow>
            \<not> (countA > 2 * countB \<and> countA > 0) \<and> \<not> (countB > 2 * countA \<and> countB > 0))
       \<and> (countB = 0 \<and> countA > 0 \<longrightarrow> fst (infer_pass df ct) u = Some Reindeer)
       \<and> (countA = 0 \<and> countB > 0 \<longrightarrow> fst (infer_pass df ct) u = Some Penguin)
       \<and> commit_user u (7, 3) (ct, ch) = (ct(u \<mapsto> Reindeer), True)
       \<and> commit_user u (5, 3) (ct, ch) = (ct, ch)
       \<and> commit_user u (0, 0) (ct, ch) = (ct, ch)"
proof -
  have res: "fst (infer_pass df ct) u = commit_rule countA countB"
  proof (cases "map_of (collect_evidence ct df []) u")
    case None
    with assms(2) have "countA = 0" "countB = 0" by (simp_all add: tally_def)
    with None assms(1) show ?thesis by (simp add: infer_pass_fst commit_rule_def)
  next
    case (Some c)
    with assms(2) have "c = (countA, countB)" by (simp add: tally_def)
    with Some assms(1) show ?thesis by (simp add: infer_pass_fst)
  qed
  have a: "commit_rule countA countB = Some Reindeer \<longleftrightarrow> countA > 2 * countB \<and> countA > 0"
    by (simp add: commit_rule_def)
  have b: "commit_rule countA countB = Some Penguin \<longleftrightarrow> countB > 2 * countA \<and> countB > 0"
    by (auto simp: commit_rule_def)
  have n: "commit_rule countA countB = None \<longleftrightarrow>
      \<not> (countA > 2 * countB \<and> countA > 0) \<and> \<not> (countB > 2 * countA \<and> countB > 0)"
    by (simp add: commit_rule_def)
  have body: "commit_user u (7, 3) (ct, ch) = (ct(u \<mapsto> Reindeer), True)"
    "commit_user u (5, 3) (ct, ch) = (ct, ch)"
    "commit_user u (0, 0) (ct, ch) = (ct, ch)"
    using assms(1) by (simp_all add: commit_user.simps)
  have one: "countB = 0 \<and> countA > 0 \<longrightarrow> commit_rule countA countB = Some Reindeer"
    "countA = 0 \<and> countB > 0 \<longrightarrow> commit_rule countA countB = Some Penguin"
    by (simp_all add: commit_rule_def)
  from a b n one body show ?thesis unfolding res by blast
qed

theorem commit_pass_rule_witness:
  "seed_dominance ''Z'' = None
   \<and> tally (collect_evidence seed_dominance df_dominance []) ''Z'' = (7, 3)
   \<and> fst (infer_pass df_dominance seed_dominance) ''Z'' = Some Reindeer
   \<and> commit_user ''Z'' (5, 3) (seed_dominance, False) = (seed_dominance, False)
   \<and> seed_dominance ''Q'' = None
   \<and> tally (collect_evidence seed_dominance df_dominance []) ''Q'' = (0, 0)
   \<and> fst (infer_pass df_dominance seed_dominance) ''Q'' = None"
proof -
  have h1: "seed_dominance ''Z'' = None" by code_simp
  have h2: "tally (collect_evidence seed_dominance df_dominance []) ''Z'' = (7, 3)"
    by code_simp
  have q1: "seed_dominance ''Q'' = None" by code_simp
  have q2: "tally (collect_evidence seed_dominance df_dominance []) ''Q'' = (0, 0)"
    by code_simp
  show ?thesis
    using h1 h2 q1 q2 commit_pass_rule [OF h1 h2, of False] commit_pass_rule [OF q1 q2, of False]
    by simp
qed

section \<open>Labels are written once\<close>

text \<open>
  C2. A label is never overwritten or removed: a step of the commit loop keeps every
  label it finds, so does a pass, the labelled participants after pass \<open>n + 1\<close> include
  those after pass \<open>n\<close>, the returned teams extend the seed, and a seed participant ends
  with its seed label, whatever the frame holds.
\<close>

theorem labels_write_once:
  "(ct u = Some t \<longrightarrow> fst (commit_user k c (ct, ch)) u = Some t)
   \<and> ct \<subseteq>\<^sub>m fst (infer_pass df ct)
   \<and> teams_after n df ct \<subseteq>\<^sub>m teams_after (Suc n) df ct
   \<and> dom (teams_after n df ct) \<subseteq> dom (teams_after (Suc n) df ct)
   \<and> ct \<subseteq>\<^sub>m infer_teams df ct
   \<and> (ct u = Some t \<longrightarrow> infer_teams df ct u = Some t)"
proof -
  have step: "ct u = Some t \<longrightarrow> fst (commit_user k c (ct, ch)) u = Some t"
    using map_le_Some [OF commit_user_le [of "(ct, ch)" k c], of u t] by simp
  have pass: "teams_after n df ct \<subseteq>\<^sub>m teams_after (Suc n) df ct"
    by (simp add: infer_pass_le)
  then have doms: "dom (teams_after n df ct) \<subseteq> dom (teams_after (Suc n) df ct)"
    by (rule map_le_implies_dom_le)
  have run: "ct u = Some t \<longrightarrow> infer_teams df ct u = Some t"
    using map_le_Some [OF infer_teams_le [of ct df], of u t] by simp
  from step pass doms run show ?thesis
    using infer_pass_le [of ct df] infer_teams_le [of ct df] by blast
qed

theorem labels_write_once_witness:
  "seed_dominance ''X'' = Some Penguin
   \<and> infer_teams df_dominance seed_dominance ''X'' = Some Penguin
   \<and> fst (commit_user ''X'' (3, 0) (seed_dominance, False)) ''X'' = Some Penguin
   \<and> infer_teams df_dominance seed_dominance ''Z'' = Some Reindeer"
proof -
  have h: "seed_dominance ''X'' = Some Penguin" by code_simp
  have z: "infer_teams df_dominance seed_dominance ''Z'' = Some Reindeer" by code_simp
  from h z show ?thesis
    using labels_write_once [of seed_dominance "''X''" Penguin "''X''" "(3, 0)" False
        df_dominance 0]
    by simp
qed

section \<open>The votes of a pass\<close>

text \<open>
  C3. In the evidence sweep a row with exactly one labelled endpoint gives the other
  endpoint exactly one vote, toward the team opposite to the labelled endpoint's; a row
  whose endpoints are both labelled or both unlabelled leaves the evidence as it is;
  rows are not deduplicated, so after the sweep the tally of a participant is the number
  of contributing rows of the whole frame, per team, and a participant has an entry
  exactly when some row contributes.
\<close>

theorem evidence_pass_votes:
  "(ct (Attacker rw) = Some l \<and> ct (Victim rw) = None \<longrightarrow>
      step_row ct rw ev = add_vote (Victim rw) (opposite l) ev)
   \<and> (ct (Victim rw) = Some l \<and> ct (Attacker rw) = None \<longrightarrow>
      step_row ct rw ev = add_vote (Attacker rw) (opposite l) ev)
   \<and> tally (add_vote k t ev) u = (if u = k then bump t (tally ev u) else tally ev u)
   \<and> ((ct (Attacker rw) = None) = (ct (Victim rw) = None) \<longrightarrow> step_row ct rw ev = ev)
   \<and> tally (collect_evidence ct df []) u = (votes ct df u Reindeer, votes ct df u Penguin)
   \<and> (map_of (collect_evidence ct df []) u = None \<longleftrightarrow>
        votes ct df u Reindeer = 0 \<and> votes ct df u Penguin = 0)"
proof -
  have total: "tally (collect_evidence ct df []) u = (votes ct df u Reindeer, votes ct df u Penguin)"
    using tally_collect_evidence [of ct df "[]" u] by (simp add: tally_def)
  have nonneg: "0 \<le> votes ct df u t'" for t' by (simp add: votes_def)
  have "map_of (collect_evidence ct df []) u = None \<longleftrightarrow>
      u \<notin> fst ` set (collect_evidence ct df [])"
    by (simp add: map_of_eq_None_iff)
  also have "\<dots> \<longleftrightarrow> \<not> (0 < votes ct df u Reindeer \<or> 0 < votes ct df u Penguin)"
    by (simp add: collect_evidence_has_key)
  also have "\<dots> \<longleftrightarrow> votes ct df u Reindeer = 0 \<and> votes ct df u Penguin = 0"
    using nonneg [of Reindeer] nonneg [of Penguin] by auto
  finally have entry: "map_of (collect_evidence ct df []) u = None \<longleftrightarrow>
      votes ct df u Reindeer = 0 \<and> votes ct df u Penguin = 0" .
  from total entry show ?thesis
    using step_row_one_attacker [of ct rw l ev] step_row_one_victim [of ct rw l ev]
      step_row_none [of ct rw ev] tally_add_vote [of k t ev u]
    by blast
qed

theorem evidence_pass_votes_witness:
  "step_row seed_dominance (mk_row ''X'' ''Z'') [] = [(''Z'', (1, 0))]
   \<and> step_row seed_dominance (mk_row ''Z'' ''Y'') [] = [(''Z'', (0, 1))]
   \<and> step_row seed_dominance (mk_row ''X'' ''Y'') [(''Z'', (1, 0))] = [(''Z'', (1, 0))]
   \<and> step_row seed_dominance (mk_row ''W'' ''Z'') [] = []
   \<and> tally (collect_evidence seed_dominance df_dominance []) ''Z'' = (7, 3)
   \<and> votes seed_dominance df_dominance ''Z'' Reindeer = 7
   \<and> votes seed_dominance df_dominance ''Z'' Penguin = 3"
proof -
  have xz: "seed_dominance (Attacker (mk_row ''X'' ''Z'')) = Some Penguin
      \<and> seed_dominance (Victim (mk_row ''X'' ''Z'')) = None"
    by code_simp
  have zy: "seed_dominance (Victim (mk_row ''Z'' ''Y'')) = Some Reindeer
      \<and> seed_dominance (Attacker (mk_row ''Z'' ''Y'')) = None"
    by code_simp
  have xy: "(seed_dominance (Attacker (mk_row ''X'' ''Y'')) = None)
      = (seed_dominance (Victim (mk_row ''X'' ''Y'')) = None)"
    by code_simp
  have wz: "(seed_dominance (Attacker (mk_row ''W'' ''Z'')) = None)
      = (seed_dominance (Victim (mk_row ''W'' ''Z'')) = None)"
    by code_simp
  have adds: "add_vote (Victim (mk_row ''X'' ''Z'')) (opposite Penguin) [] = [(''Z'', (1, 0))]"
    "add_vote (Attacker (mk_row ''Z'' ''Y'')) (opposite Reindeer) [] = [(''Z'', (0, 1))]"
    by code_simp+
  have v: "votes seed_dominance df_dominance ''Z'' Reindeer = 7"
    "votes seed_dominance df_dominance ''Z'' Penguin = 3"
    by code_simp+
  note c2 = conjunct2
  have 1: "step_row seed_dominance (mk_row ''X'' ''Z'') [] = [(''Z'', (1, 0))]"
    using evidence_pass_votes [of seed_dominance "mk_row ''X'' ''Z''" Penguin "[]"
        "''Z''" Reindeer "''Z''" "[]", THEN conjunct1, THEN mp, OF xz]
    unfolding adds .
  have 2: "step_row seed_dominance (mk_row ''Z'' ''Y'') [] = [(''Z'', (0, 1))]"
    using evidence_pass_votes [of seed_dominance "mk_row ''Z'' ''Y''" Reindeer "[]"
        "''Z''" Reindeer "''Z''" "[]", THEN c2, THEN conjunct1, THEN mp, OF zy]
    unfolding adds .
  have 3: "step_row seed_dominance (mk_row ''X'' ''Y'') [(''Z'', (1, 0))] = [(''Z'', (1, 0))]"
    by (rule evidence_pass_votes [of seed_dominance "mk_row ''X'' ''Y''" Reindeer
        "[(''Z'', (1, 0))]" "''Z''" Reindeer "''Z''" "[]",
        THEN c2, THEN c2, THEN c2, THEN conjunct1, THEN mp, OF xy])
  have 4: "step_row seed_dominance (mk_row ''W'' ''Z'') [] = []"
    by (rule evidence_pass_votes [of seed_dominance "mk_row ''W'' ''Z''" Reindeer "[]"
        "''Z''" Reindeer "''Z''" "[]",
        THEN c2, THEN c2, THEN c2, THEN conjunct1, THEN mp, OF wz])
  have 5: "tally (collect_evidence seed_dominance df_dominance []) ''Z'' = (7, 3)"
    using evidence_pass_votes [of seed_dominance "mk_row ''X'' ''Z''" Penguin "[]"
        "''Z''" Reindeer "''Z''" df_dominance,
        THEN c2, THEN c2, THEN c2, THEN c2, THEN conjunct1]
    unfolding v .
  from 1 2 3 4 5 v show ?thesis by simp
qed

section \<open>Self-interactions\<close>

text \<open>
  C9. A row whose attacker is its victim is accepted (the model of \<^verbatim>\<open>infer_teams\<close> has
  no error result, as the source has no raise and guards each lookup) and gives no vote
  to anyone, whatever the teams are: it leaves the evidence as it is in every pass, and
  the run on a frame is the run on the frame without its self-interactions.
\<close>

theorem self_interaction_no_vote:
  "(Attacker rw = Victim rw \<longrightarrow> step_row ct rw ev = ev \<and> \<not> contributes ct u t rw)
   \<and> collect_evidence ct (filter (\<lambda>rw. Attacker rw \<noteq> Victim rw) df) ev = collect_evidence ct df ev
   \<and> infer_teams (filter (\<lambda>rw. Attacker rw \<noteq> Victim rw) df) ct = infer_teams df ct"
proof -
  have row: "Attacker rw = Victim rw \<longrightarrow> step_row ct rw ev = ev \<and> \<not> contributes ct u t rw"
    by (auto simp: step_row_none contributes_def)
  have "infer_pass (filter (\<lambda>rw. Attacker rw \<noteq> Victim rw) df) ct' = infer_pass df ct'" for ct'
    by (simp add: infer_pass_def collect_evidence_filter_self)
  then have "infer_teams (filter (\<lambda>rw. Attacker rw \<noteq> Victim rw) df) ct = infer_teams df ct"
    by (intro infer_teams_same_pass allI)
  with row show ?thesis by (simp add: collect_evidence_filter_self)
qed

theorem self_interaction_no_vote_witness:
  "Attacker (mk_row ''X'' ''X'') = Victim (mk_row ''X'' ''X'')
   \<and> step_row seed_dominance (mk_row ''X'' ''X'') [(''Z'', (1, 0))] = [(''Z'', (1, 0))]
   \<and> Attacker (mk_row ''Z'' ''Z'') = Victim (mk_row ''Z'' ''Z'')
   \<and> step_row seed_dominance (mk_row ''Z'' ''Z'') [] = []
   \<and> \<not> contributes seed_dominance ''Z'' Reindeer (mk_row ''Z'' ''Z'')"
proof -
  have x: "Attacker (mk_row ''X'' ''X'') = Victim (mk_row ''X'' ''X'')" by code_simp
  have z: "Attacker (mk_row ''Z'' ''Z'') = Victim (mk_row ''Z'' ''Z'')" by code_simp
  note labelled = self_interaction_no_vote [of "mk_row ''X'' ''X''" seed_dominance
      "[(''Z'', (1, 0))]" "''Z''" Reindeer "[]", THEN conjunct1, THEN mp, OF x]
  note unlabelled = self_interaction_no_vote [of "mk_row ''Z'' ''Z''" seed_dominance
      "[]" "''Z''" Reindeer "[]", THEN conjunct1, THEN mp, OF z]
  from x z labelled unlabelled show ?thesis by blast
qed

section \<open>One evidence snapshot per pass\<close>

text \<open>
  C5. The evidence of a pass is computed from the teams as they stand at the start of
  the pass, and the sequential commit loop over it gives what committing every matching
  participant at once gives, teams and flag; the loop gives the same on the entries of
  the evidence taken in any other order.
\<close>

theorem pass_is_simultaneous:
  assumes "distinct (map fst ev')"
    and "set ev' = set (collect_evidence ct df [])"
  shows "infer_pass df ct = commit_simultaneously (collect_evidence ct df []) ct
       \<and> apply_evidence ev' (ct, False) = infer_pass df ct"
proof -
  have d: "distinct (map fst (collect_evidence ct df []))"
    by (simp add: collect_evidence_distinct)
  have seq: "infer_pass df ct = commit_simultaneously (collect_evidence ct df []) ct"
    unfolding infer_pass_def by (rule apply_evidence_simultaneous [OF d])
  have "apply_evidence ev' (ct, False) = commit_simultaneously ev' ct"
    by (rule apply_evidence_simultaneous [OF assms(1)])
  also have "\<dots> = commit_simultaneously (collect_evidence ct df []) ct"
    by (rule commit_simultaneously_cong [OF d assms])
  finally show ?thesis using seq by simp
qed

theorem pass_is_simultaneous_witness:
  "distinct (map fst [(''W'', (1::int, 0::int)), (''Z'', (1, 0))])
   \<and> set [(''W'', (1, 0)), (''Z'', (1, 0))] = set (collect_evidence seed_dominance df_two [])
   \<and> collect_evidence seed_dominance df_two [] = [(''Z'', (1, 0)), (''W'', (1, 0))]
   \<and> apply_evidence [(''W'', (1, 0)), (''Z'', (1, 0))] (seed_dominance, False)
       = infer_pass df_two seed_dominance
   \<and> infer_pass df_two seed_dominance
       = commit_simultaneously (collect_evidence seed_dominance df_two []) seed_dominance"
proof -
  have c: "collect_evidence seed_dominance df_two [] = [(''Z'', (1, 0)), (''W'', (1, 0))]"
    by code_simp
  have h1: "distinct (map fst [(''W'', (1::int, 0::int)), (''Z'', (1, 0))])" by simp
  have h2: "set [(''W'', (1, 0)), (''Z'', (1, 0))] = set (collect_evidence seed_dominance df_two [])"
    unfolding c by auto
  from c h1 h2 pass_is_simultaneous [OF h1 h2] show ?thesis by simp
qed

section \<open>The one-sided branches\<close>

text \<open>
  C10. No tally takes a one-sided branch of the commit step: a tally with one count zero
  and the other positive takes the dominance branch of the positive team, which commits
  that team. So the commit step is the step with the two dominance branches only, and
  \<^verbatim>\<open>infer_teams\<close> returns what the variant with that commit step returns.
\<close>

theorem one_sided_branches_unreachable:
  "commit_branch r p \<noteq> 3 \<and> commit_branch r p \<noteq> 4
   \<and> (r > 0 \<and> p = 0 \<longrightarrow> commit_branch r p = 1)
   \<and> (p > 0 \<and> r = 0 \<longrightarrow> commit_branch r p = 2)
   \<and> commit_user u (r, p) (ct, ch) =
        (if ct u \<noteq> None \<or> commit_branch r p = 0 then (ct, ch)
         else if commit_branch r p = 1 \<or> commit_branch r p = 3 then (ct(u \<mapsto> Reindeer), True)
         else (ct(u \<mapsto> Penguin), True))
   \<and> commit_user_dominance u c s = commit_user u c s
   \<and> apply_evidence_dominance ev s = apply_evidence ev s
   \<and> infer_teams_dominance df ct = infer_teams df ct"
proof -
  have b3: "commit_branch r p \<noteq> 3" and b4: "commit_branch r p \<noteq> 4"
    by (simp_all add: commit_branch_def)
  have r1: "r > 0 \<and> p = 0 \<longrightarrow> commit_branch r p = 1"
    and p2: "p > 0 \<and> r = 0 \<longrightarrow> commit_branch r p = 2"
    by (simp_all add: commit_branch_def)
  have body: "commit_user u (r, p) (ct, ch) =
        (if ct u \<noteq> None \<or> commit_branch r p = 0 then (ct, ch)
         else if commit_branch r p = 1 \<or> commit_branch r p = 3 then (ct(u \<mapsto> Reindeer), True)
         else (ct(u \<mapsto> Penguin), True))"
    by (simp add: commit_user.simps commit_branch_def)
  show ?thesis
    by (intro conjI b3 b4 r1 p2 body commit_user_dominance_eq apply_evidence_dominance_eq
        infer_teams_dominance_eq)
qed

theorem one_sided_branches_unreachable_witness:
  "(3::int) > 0 \<and> (0::int) = 0 \<and> commit_branch 3 0 = 1
   \<and> (2::int) > 0 \<and> commit_branch 0 2 = 2
   \<and> commit_user ''Z'' (3, 0) (seed_dominance, False)
        = commit_user_dominance ''Z'' (3, 0) (seed_dominance, False)"
proof -
  have h1: "(3::int) > 0 \<and> (0::int) = 0" by simp
  have h2: "(2::int) > 0 \<and> (0::int) = 0" by simp
  note t1 = one_sided_branches_unreachable [of 3 0 "''Z''" seed_dominance False
      "(3, 0)" "(seed_dominance, False)" "[]" "[]"]
  note t2 = one_sided_branches_unreachable [of 0 2 "''Z''" seed_dominance False
      "(3, 0)" "(seed_dominance, False)" "[]" "[]"]
  have a: "commit_branch 3 0 = 1"
    by (rule t1 [THEN conjunct2, THEN conjunct2, THEN conjunct1, THEN mp, OF h1])
  have b: "commit_branch 0 2 = 2"
    by (rule t2 [THEN conjunct2, THEN conjunct2, THEN conjunct2, THEN conjunct1, THEN mp, OF h2])
  have c: "commit_user_dominance ''Z'' (3, 0) (seed_dominance, False)
      = commit_user ''Z'' (3, 0) (seed_dominance, False)"
    by (rule t1 [THEN conjunct2, THEN conjunct2, THEN conjunct2, THEN conjunct2,
          THEN conjunct2, THEN conjunct1])
  from a b c show ?thesis by simp
qed

section \<open>Conservatism\<close>

text \<open>
  C4. A participant without a team whose tally in a pass is tied with both counts
  positive, or within the band of a factor two with both counts positive, gets no team
  in that pass; when its tally is in that band in every pass, it has no team at the end
  of the run.
\<close>

theorem conservatism:
  "(ct u = None \<and> tally_in_band ct df u \<longrightarrow> fst (infer_pass df ct) u = None)
   \<and> (ct u = None \<and> (\<forall>n. tally_in_band (teams_after n df ct) df u)
        \<longrightarrow> infer_teams df ct u = None)"
proof -
  have run: "infer_teams df ct u = None"
    if none: "ct u = None" and band: "\<forall>n. tally_in_band (teams_after n df ct) df u"
  proof -
    have always: "teams_after n df ct u = None" for n
    proof (induction n)
      case 0
      from none show ?case by simp
    next
      case (Suc n)
      from band have "tally_in_band (teams_after n df ct) df u" by simp
      with Suc show ?case by (simp add: in_band_stays_unlabeled)
    qed
    obtain n where "infer_teams df ct = teams_after n df ct"
      using infer_teams_is_teams_after [of df ct] by blast
    with always [of n] show ?thesis by simp
  qed
  then show ?thesis by (simp add: in_band_stays_unlabeled)
qed

theorem conservatism_witness:
  "seed_tied ''Z'' = None
   \<and> map_of (collect_evidence seed_tied df_tied []) ''Z'' = Some (2, 2)
   \<and> tally_in_band seed_tied df_tied ''Z''
   \<and> fst (infer_pass df_tied seed_tied) ''Z'' = None
   \<and> infer_teams df_tied seed_tied ''Z'' = None"
proof -
  have none: "seed_tied ''Z'' = None" by code_simp
  have tally: "map_of (collect_evidence seed_tied df_tied []) ''Z'' = Some (2, 2)" by code_simp
  have band: "tally_in_band seed_tied df_tied ''Z''" by code_simp
  have "\<not> snd (infer_pass df_tied seed_tied)" by code_simp
  then have same: "fst (infer_pass df_tied seed_tied) = seed_tied"
    by (simp add: infer_pass_snd)
  have "teams_after n df_tied seed_tied = seed_tied" for n
    by (induction n) (simp_all add: same)
  with band have all: "\<forall>n. tally_in_band (teams_after n df_tied seed_tied) df_tied ''Z''"
    by simp
  note t = conservatism [of seed_tied "''Z''" df_tied]
  have pass: "fst (infer_pass df_tied seed_tied) ''Z'' = None"
    by (rule t [THEN conjunct1, THEN mp, OF conjI [OF none band]])
  have run: "infer_teams df_tied seed_tied ''Z'' = None"
    by (rule t [THEN conjunct2, THEN mp, OF conjI [OF none all]])
  from none tally band pass run show ?thesis by simp
qed

section \<open>Termination\<close>

text \<open>
  C6. The loop terminates, and it reaches a pass that commits nothing within the larger
  of one and the number of participants of the frame: a pass that commits a label leaves
  fewer participants without a team, and these are at most the participants of the
  frame. One pass always runs, also on a frame with no participant.
\<close>

theorem fixpoint_within_bound:
  "infer_teams_fuel (max 1 (participant_count df)) df ct = Some (infer_teams df ct)
   \<and> (snd (infer_pass df ct) \<longrightarrow>
        card (unlabeled df (fst (infer_pass df ct))) < card (unlabeled df ct))
   \<and> card (unlabeled df ct) \<le> participant_count df"
proof -
  have "unlabeled df ct \<subseteq> participants df" by (auto simp: unlabeled_def)
  then have "card (unlabeled df ct) \<le> participant_count df"
    unfolding participant_count_def by (rule card_mono [OF finite_participants])
  moreover have "snd (infer_pass df ct) \<longrightarrow>
      card (unlabeled df (fst (infer_pass df ct))) < card (unlabeled df ct)"
    by (simp add: infer_pass_decreases)
  ultimately show ?thesis
    by (intro conjI infer_teams_fuel_bound)
qed

theorem fixpoint_within_bound_witness:
  "snd (infer_pass df_dominance seed_dominance)
   \<and> card (unlabeled df_dominance (fst (infer_pass df_dominance seed_dominance)))
       < card (unlabeled df_dominance seed_dominance)
   \<and> participant_count df_dominance = 3
   \<and> infer_teams_fuel 3 df_dominance seed_dominance
       = Some (infer_teams df_dominance seed_dominance)"
proof -
  have h: "snd (infer_pass df_dominance seed_dominance)" by code_simp
  have p: "participant_count df_dominance = 3" by code_simp
  note t = fixpoint_within_bound [of df_dominance seed_dominance]
  have d: "card (unlabeled df_dominance (fst (infer_pass df_dominance seed_dominance)))
      < card (unlabeled df_dominance seed_dominance)"
    by (rule t [THEN conjunct2, THEN conjunct1, THEN mp, OF h])
  from t have "infer_teams_fuel 3 df_dominance seed_dominance
      = Some (infer_teams df_dominance seed_dominance)"
    unfolding p by simp
  with h p d show ?thesis by simp
qed

text \<open>
  On the frame with no row and no seed the number of participants is zero, and no pass
  that commits nothing is reached within zero passes: the loop runs one pass.
\<close>

theorem fixpoint_within_participant_count_counterexample:
  "participant_count [] = 0
   \<and> infer_teams_fuel (participant_count []) [] Map.empty = None
   \<and> infer_teams_fuel 1 [] Map.empty = Some Map.empty"
  by (simp add: participant_count_def participants_Nil infer_pass_def)

section \<open>The records of the reporter\<close>

text \<open>
  C7. The output of the reporter has exactly one record for every participant that is
  the attacker or the victim of some row and has a team in the final teams, and no record
  for anyone else; a record holds the user, the number of rows with the user as attacker,
  the number of rows with the user as victim, and the team of the user. A participant
  without a team has no record.
\<close>

theorem reporter_records:
  "length (filter (\<lambda>s. User s = u) (build_stats df solid))
     = (if u \<in> participants df \<and> solid u \<noteq> None then 1 else 0)
   \<and> (\<forall>s \<in> set (build_stats df solid).
        User s \<in> participants df \<and> Team s = solid (User s) \<and> Team s \<noteq> None
        \<and> Attacks_Made s = outgoing_count df (User s)
        \<and> Attacks_Received s = incoming_count df (User s))
   \<and> (solid u = None \<longrightarrow> u \<notin> User ` set (build_stats df solid))"
proof -
  let ?us = "filter (\<lambda>u. solid u \<noteq> None) (stat_users df)"
  have user: "User (stat_of df solid x) = x" for x by (simp add: stat_of_def)
  have "filter (\<lambda>s. User s = u) (build_stats df solid)
      = map (stat_of df solid) (filter (\<lambda>x. x = u) ?us)"
    unfolding build_stats_alt by (simp add: filter_map comp_def user)
  then have "length (filter (\<lambda>s. User s = u) (build_stats df solid))
      = length (filter (\<lambda>x. x = u) ?us)"
    by simp
  also have "\<dots> = (if u \<in> participants df \<and> solid u \<noteq> None then 1 else 0)"
    using distinct_count_one [OF stat_users_distinct, of u "\<lambda>u. solid u \<noteq> None" df]
    by (simp add: stat_users_set)
  finally have one: "length (filter (\<lambda>s. User s = u) (build_stats df solid))
      = (if u \<in> participants df \<and> solid u \<noteq> None then 1 else 0)" .
  have each: "\<forall>s \<in> set (build_stats df solid).
        User s \<in> participants df \<and> Team s = solid (User s) \<and> Team s \<noteq> None
        \<and> Attacks_Made s = outgoing_count df (User s)
        \<and> Attacks_Received s = incoming_count df (User s)"
    unfolding build_stats_alt by (auto simp: stat_of_def stat_users_set)
  have none: "solid u = None \<longrightarrow> u \<notin> User ` set (build_stats df solid)"
    unfolding build_stats_alt by (auto simp: stat_of_def)
  from one each none show ?thesis by (intro conjI)
qed

theorem reporter_records_witness:
  "\<lparr>User = ''bsims'', Attacks_Made = 2, Attacks_Received = 0, Team = Some Reindeer\<rparr>
      \<in> set (build_stats df_report (infer_teams df_report user_teams))
   \<and> outgoing_count df_report ''bsims'' = 2
   \<and> incoming_count df_report ''bsims'' = 0
   \<and> infer_teams df_report user_teams ''bsims'' = Some Reindeer
   \<and> infer_teams df_report user_teams ''Other'' = None
   \<and> ''Other'' \<notin> User ` set (build_stats df_report (infer_teams df_report user_teams))
   \<and> length (filter (\<lambda>s. User s = ''Stranger'')
        (build_stats df_report (infer_teams df_report user_teams))) = 1"
proof -
  let ?solid = "infer_teams df_report user_teams"
  let ?s = "\<lparr>User = ''bsims'', Attacks_Made = 2, Attacks_Received = 0, Team = Some Reindeer\<rparr>"
  have mem: "?s \<in> set (build_stats df_report ?solid)" by code_simp
  have other: "?solid ''Other'' = None" by code_simp
  have stranger: "''Stranger'' \<in> participants df_report \<and> ?solid ''Stranger'' \<noteq> None"
    by code_simp
  note t = reporter_records [of _ df_report ?solid]
  from t [of "''bsims''", THEN conjunct2, THEN conjunct1, THEN bspec, OF mem]
  have rec: "outgoing_count df_report ''bsims'' = 2" "incoming_count df_report ''bsims'' = 0"
    "?solid ''bsims'' = Some Reindeer"
    by simp_all
  have gone: "''Other'' \<notin> User ` set (build_stats df_report ?solid)"
    by (rule t [of "''Other''", THEN conjunct2, THEN conjunct2, THEN mp, OF other])
  have one: "length (filter (\<lambda>s. User s = ''Stranger'') (build_stats df_report ?solid)) = 1"
    using t [of "''Stranger''", THEN conjunct1] stranger by simp
  from mem rec other gone one show ?thesis by (intro conjI)
qed

section \<open>Counts of zero in the output\<close>

text \<open>
  C8, as the code has it. A participant that has a team, from the seed or inferred, and
  no row of one kind has a record in the output, with that count zero, when it has a row
  of the other kind; so has a seeded participant of \<^verbatim>\<open>main\<close>. A participant with no row
  of either kind has no record, whether or not it has a team, and a participant without
  a team has no record, whatever its counts.
\<close>

theorem zero_count_recorded:
  "(solid u = Some t \<and> outgoing_count df u = 0 \<and> 0 < incoming_count df u \<longrightarrow>
      \<lparr>User = u, Attacks_Made = 0, Attacks_Received = incoming_count df u, Team = Some t\<rparr>
        \<in> set (build_stats df solid))
   \<and> (solid u = Some t \<and> incoming_count df u = 0 \<and> 0 < outgoing_count df u \<longrightarrow>
      \<lparr>User = u, Attacks_Made = outgoing_count df u, Attacks_Received = 0, Team = Some t\<rparr>
        \<in> set (build_stats df solid))
   \<and> (user_teams u = Some t \<and> u \<in> participants df \<longrightarrow>
      \<lparr>User = u, Attacks_Made = outgoing_count df u, Attacks_Received = incoming_count df u,
        Team = Some t\<rparr> \<in> set (main_stats df))
   \<and> (outgoing_count df u = 0 \<and> incoming_count df u = 0 \<longrightarrow>
      u \<notin> User ` set (build_stats df solid))
   \<and> (solid u = None \<longrightarrow> u \<notin> User ` set (build_stats df solid))"
proof -
  have rec: "stat_of df solid' u \<in> set (build_stats df solid')"
    if "solid' u = Some t" "u \<in> participants df" for solid'
    unfolding build_stats_alt using that by (simp add: stat_users_set)
  have a: "solid u = Some t \<and> outgoing_count df u = 0 \<and> 0 < incoming_count df u \<longrightarrow>
      \<lparr>User = u, Attacks_Made = 0, Attacks_Received = incoming_count df u, Team = Some t\<rparr>
        \<in> set (build_stats df solid)"
    using rec [of solid] by (auto simp: participants_counts stat_of_def)
  have b: "solid u = Some t \<and> incoming_count df u = 0 \<and> 0 < outgoing_count df u \<longrightarrow>
      \<lparr>User = u, Attacks_Made = outgoing_count df u, Attacks_Received = 0, Team = Some t\<rparr>
        \<in> set (build_stats df solid)"
    using rec [of solid] by (auto simp: participants_counts stat_of_def)
  have c: "user_teams u = Some t \<and> u \<in> participants df \<longrightarrow>
      \<lparr>User = u, Attacks_Made = outgoing_count df u, Attacks_Received = incoming_count df u,
        Team = Some t\<rparr> \<in> set (main_stats df)"
  proof
    assume h: "user_teams u = Some t \<and> u \<in> participants df"
    then have "infer_teams df user_teams u = Some t"
      using map_le_Some [OF infer_teams_le [of user_teams df], of u t] by simp
    with h have "stat_of df (infer_teams df user_teams) u \<in> set (main_stats df)"
      unfolding main_stats_def by (intro rec) simp_all
    with \<open>infer_teams df user_teams u = Some t\<close>
    show "\<lparr>User = u, Attacks_Made = outgoing_count df u, Attacks_Received = incoming_count df u,
        Team = Some t\<rparr> \<in> set (main_stats df)"
      by (simp add: stat_of_def)
  qed
  have d: "outgoing_count df u = 0 \<and> incoming_count df u = 0 \<longrightarrow>
      u \<notin> User ` set (build_stats df solid)"
    unfolding build_stats_alt by (auto simp: stat_of_def stat_users_set participants_counts)
  have e: "solid u = None \<longrightarrow> u \<notin> User ` set (build_stats df solid)"
    unfolding build_stats_alt by (auto simp: stat_of_def)
  from a b c d e show ?thesis by (intro conjI)
qed

theorem zero_count_recorded_witness:
  "user_teams ''Winnie'' = Some Penguin
   \<and> outgoing_count df_report ''Winnie'' = 0
   \<and> incoming_count df_report ''Winnie'' = 1
   \<and> \<lparr>User = ''Winnie'', Attacks_Made = 0, Attacks_Received = 1, Team = Some Penguin\<rparr>
        \<in> set (build_stats df_report user_teams)
   \<and> \<lparr>User = ''bsims'', Attacks_Made = 2, Attacks_Received = 0, Team = Some Reindeer\<rparr>
        \<in> set (build_stats df_report user_teams)
   \<and> \<lparr>User = ''Winnie'', Attacks_Made = 0, Attacks_Received = 1, Team = Some Penguin\<rparr>
        \<in> set (main_stats df_report)
   \<and> ''Luckymaxer'' \<notin> User ` set (build_stats df_report user_teams)"
proof -
  have w: "user_teams ''Winnie'' = Some Penguin \<and> outgoing_count df_report ''Winnie'' = 0
      \<and> 0 < incoming_count df_report ''Winnie''"
    by code_simp
  have wi: "incoming_count df_report ''Winnie'' = 1" by code_simp
  have b: "user_teams ''bsims'' = Some Reindeer \<and> incoming_count df_report ''bsims'' = 0
      \<and> 0 < outgoing_count df_report ''bsims''"
    by code_simp
  have bo: "outgoing_count df_report ''bsims'' = 2" by code_simp
  have wp: "user_teams ''Winnie'' = Some Penguin \<and> ''Winnie'' \<in> participants df_report"
    by code_simp
  have l: "outgoing_count df_report ''Luckymaxer'' = 0 \<and> incoming_count df_report ''Luckymaxer'' = 0"
    by code_simp
  note c2 = conjunct2
  note tw = zero_count_recorded [of user_teams "''Winnie''" Penguin df_report]
  note tb = zero_count_recorded [of user_teams "''bsims''" Reindeer df_report]
  note tl = zero_count_recorded [of user_teams "''Luckymaxer''" Penguin df_report]
  have 1: "\<lparr>User = ''Winnie'', Attacks_Made = 0, Attacks_Received = 1, Team = Some Penguin\<rparr>
        \<in> set (build_stats df_report user_teams)"
    using tw [THEN conjunct1, THEN mp, OF w] unfolding wi .
  have 2: "\<lparr>User = ''bsims'', Attacks_Made = 2, Attacks_Received = 0, Team = Some Reindeer\<rparr>
        \<in> set (build_stats df_report user_teams)"
    using tb [THEN c2, THEN conjunct1, THEN mp, OF b] unfolding bo .
  have 3: "\<lparr>User = ''Winnie'', Attacks_Made = 0, Attacks_Received = 1, Team = Some Penguin\<rparr>
        \<in> set (main_stats df_report)"
    using tw [THEN c2, THEN c2, THEN conjunct1, THEN mp, OF wp] w wi by simp
  have 4: "''Luckymaxer'' \<notin> User ` set (build_stats df_report user_teams)"
    by (rule tl [THEN c2, THEN c2, THEN c2, THEN conjunct1, THEN mp, OF l])
  from w wi 1 2 3 4 show ?thesis by (intro conjI) simp_all
qed

text \<open>
  The seeded reindeer \<^verbatim>\<open>SammyxxFairy\<close> is in no row of the frame: it has a team and both
  counts zero, and the output has no record of it. The user \<^verbatim>\<open>Other\<close> has a row as
  attacker and no team, and has no record either.
\<close>

theorem seeded_without_rows_counterexample:
  "user_teams ''SammyxxFairy'' = Some Reindeer
   \<and> infer_teams df_report user_teams ''SammyxxFairy'' = Some Reindeer
   \<and> outgoing_count df_report ''SammyxxFairy'' = 0
   \<and> incoming_count df_report ''SammyxxFairy'' = 0
   \<and> ''SammyxxFairy'' \<notin> set (map User (main_stats df_report))
   \<and> outgoing_count df_report ''Other'' = 1
   \<and> incoming_count df_report ''Other'' = 0
   \<and> ''Other'' \<notin> set (map User (main_stats df_report))"
  by code_simp

end
